theory Spec2Isabelle
  imports Main
begin

section \<open>Characters and the character source\<close>

text \<open>
  The codec of \<^verbatim>\<open>custom_csv.py\<close> works on Python strings, one character at a time.
  A string is a \<^typ>\<open>string\<close>; the character source \<^verbatim>\<open>file_obj\<close> of a reader is the
  text that has not been read yet, and the sink of a writer is the text written so far.
\<close>

abbreviation LF :: char where
  "LF \<equiv> CHR 0x0A"

abbreviation CR :: char where
  "CR \<equiv> CHR 0x0D"

datatype exn = StopIteration

section \<open>CustomCsvReader\<close>

record reader =
  file_obj :: string
  delimiter :: char
  quotechar :: char
  eof :: bool

text \<open>
  \<^verbatim>\<open>__init__\<close> stores its arguments and clears the end-of-stream flag. It has no
  \<^verbatim>\<open>raise\<close>; the result type keeps the exception branch that a Python constructor
  can take in general.
\<close>

definition CustomCsvReader_init :: "string \<Rightarrow> char \<Rightarrow> char \<Rightarrow> exn + reader" where
  "CustomCsvReader_init f d q =
     Inr \<lparr>file_obj = f, delimiter = d, quotechar = q, eof = False\<rparr>"

text \<open>
  The \<^verbatim>\<open>while True\<close> loop of \<^verbatim>\<open>_read_next_row\<close>. Its state is \<^verbatim>\<open>in_quotes\<close>,
  \<^verbatim>\<open>field_chars\<close>, \<^verbatim>\<open>row\<close> and the unread source; it returns the row (or \<open>None\<close>),
  whether \<^verbatim>\<open>self._eof\<close> was set, and the source that is left. \<^verbatim>\<open>file_obj.read(1)\<close>
  is the match on the unread source: the empty string at its end, else its first
  character. Every iteration either returns or has consumed one or two characters.
\<close>

fun read_loop ::
  "char \<Rightarrow> char \<Rightarrow> bool \<Rightarrow> string \<Rightarrow> string list \<Rightarrow> string
     \<Rightarrow> string list option \<times> bool \<times> string" where
  "read_loop d q in_quotes field_chars row [] =
     (if in_quotes then (Some (row @ [field_chars]), True, [])
      else if field_chars \<noteq> [] \<or> row \<noteq> [] then (Some (row @ [field_chars]), True, [])
      else (None, True, []))"
| "read_loop d q in_quotes field_chars row (ch # rest) =
     (if ch = q then
        (if in_quotes then
           (case rest of
              [] \<Rightarrow> (Some (row @ [field_chars]), True, [])
            | next_ch # rest' \<Rightarrow>
                if next_ch = q then read_loop d q True (field_chars @ [q]) row rest'
                else if next_ch = d then read_loop d q False [] (row @ [field_chars]) rest'
                else if next_ch = LF \<or> next_ch = CR
                  then (Some (row @ [field_chars]), False, rest')
                else read_loop d q False (field_chars @ [next_ch]) row rest')
         else if field_chars = [] then read_loop d q True field_chars row rest
         else read_loop d q False (field_chars @ [ch]) row rest)
      else if ch = d \<and> \<not> in_quotes then read_loop d q False [] (row @ [field_chars]) rest
      else if (ch = LF \<or> ch = CR) \<and> \<not> in_quotes
        then (Some (row @ [field_chars]), False, rest)
      else read_loop d q in_quotes (field_chars @ [ch]) row rest)"

definition read_next_row :: "reader \<Rightarrow> string list option \<times> reader" where
  "read_next_row r =
     (if eof r then (None, r)
      else (case read_loop (delimiter r) (quotechar r) False [] [] (file_obj r) of
              (res, e, rest) \<Rightarrow> (res, r\<lparr>file_obj := rest, eof := e\<rparr>)))"

text \<open>\<^verbatim>\<open>__next__\<close>: a row, or \<^verbatim>\<open>StopIteration\<close> when \<^verbatim>\<open>_read_next_row\<close> gave \<open>None\<close>.\<close>

definition reader_next :: "reader \<Rightarrow> (exn + string list) \<times> reader" where
  "reader_next r =
     (case read_next_row r of
        (None, r') \<Rightarrow> (Inl StopIteration, r')
      | (Some row, r') \<Rightarrow> (Inr row, r'))"

text \<open>The reader's progress measure: nothing is left once end-of-stream is set.\<close>

definition remaining :: "reader \<Rightarrow> nat" where
  "remaining r = (if eof r then 0 else Suc (length (file_obj r)))"

lemma read_loop_shorter:
  "read_loop d q iq fc row s = (res, False, rest) \<Longrightarrow> length rest < length s"
proof (induction d q iq fc row s rule: read_loop.induct)
  case (1 d q in_quotes field_chars row)
  then show ?case by (simp split: if_splits)
next
  case (2 d q in_quotes field_chars row ch rest0)
  show ?case
  proof (cases rest0)
    case Nil
    with 2 show ?thesis by (auto split: if_splits)
  next
    case (Cons n r')
    with 2 show ?thesis by (auto split: if_splits)
  qed
qed

lemma reader_next_remaining:
  "reader_next r = (Inr row, r') \<Longrightarrow> remaining r' < remaining r"
  by (auto simp: reader_next_def read_next_row_def remaining_def
      split: if_splits prod.splits option.splits dest: read_loop_shorter)

text \<open>
  \<^verbatim>\<open>list(reader)\<close>, as the tests call it: \<^verbatim>\<open>__next__\<close> until \<^verbatim>\<open>StopIteration\<close>. The rows
  come with the reader's final state.
\<close>

function list_reader :: "reader \<Rightarrow> string list list \<times> reader" where
  "list_reader r =
     (case reader_next r of
        (Inl StopIteration, r') \<Rightarrow> ([], r')
      | (Inr row, r') \<Rightarrow> (case list_reader r' of (rows, r'') \<Rightarrow> (row # rows, r'')))"
  by pat_completeness auto
termination
  by (relation "measure remaining") (auto dest: reader_next_remaining [OF sym])

declare list_reader.simps [simp del]

section \<open>CustomCsvWriter\<close>

record writer =
  sink :: string
  w_delimiter :: char
  w_quotechar :: char

definition CustomCsvWriter_init :: "string \<Rightarrow> char \<Rightarrow> char \<Rightarrow> exn + writer" where
  "CustomCsvWriter_init f d q = Inr \<lparr>sink = f, w_delimiter = d, w_quotechar = q\<rparr>"

text \<open>\<^verbatim>\<open>field.replace(old, new)\<close> for a one-character \<^verbatim>\<open>old\<close>.\<close>

definition replace :: "char \<Rightarrow> string \<Rightarrow> string \<Rightarrow> string" where
  "replace old new field = concat (map (\<lambda>c. if c = old then new else [c]) field)"

definition escape_field :: "char \<Rightarrow> char \<Rightarrow> string \<Rightarrow> string" where
  "escape_field d q field =
     (let needs_quotes = (d \<in> set field \<or> q \<in> set field \<or> LF \<in> set field \<or> CR \<in> set field)
      in if needs_quotes then [q] @ replace q (replicate 2 q) field @ [q] else field)"

text \<open>\<^verbatim>\<open>sep.join(parts)\<close> for a one-character separator.\<close>

fun join :: "char \<Rightarrow> string list \<Rightarrow> string" where
  "join sep [] = []"
| "join sep [x] = x"
| "join sep (x # y # ys) = x @ [sep] @ join sep (y # ys)"

definition writerow :: "writer \<Rightarrow> string list \<Rightarrow> writer" where
  "writerow w row =
     (let escaped_fields = map (escape_field (w_delimiter w) (w_quotechar w)) row;
          line = join (w_delimiter w) escaped_fields @ [LF]
      in w\<lparr>sink := sink w @ line\<rparr>)"

fun writerows :: "writer \<Rightarrow> string list list \<Rightarrow> writer" where
  "writerows w [] = w"
| "writerows w (row # rows) = writerows (writerow w row) rows"

section \<open>Configurations and the write-then-read composition\<close>

abbreviation DQ :: char where
  "DQ \<equiv> CHR 0x22"

text \<open>
  The configuration invariant of the data model: the delimiter, the quote character and
  the two newline characters are pairwise different.
\<close>

definition valid_config :: "char \<Rightarrow> char \<Rightarrow> bool" where
  "valid_config d q = (d \<noteq> q \<and> d \<noteq> LF \<and> d \<noteq> CR \<and> q \<noteq> LF \<and> q \<noteq> CR)"

text \<open>
  The steps of \<^verbatim>\<open>test_round_trip\<close>: a writer on an empty sink, \<^verbatim>\<open>writerows\<close>, then a
  reader with the same configuration on the text written, and \<^verbatim>\<open>list(reader)\<close>.
\<close>

definition round_trip :: "char \<Rightarrow> char \<Rightarrow> string list list \<Rightarrow> exn + string list list" where
  "round_trip d q rows =
     (case CustomCsvWriter_init [] d q of
        Inl e \<Rightarrow> Inl e
      | Inr w \<Rightarrow>
          (case CustomCsvReader_init (sink (writerows w rows)) d q of
             Inl e \<Rightarrow> Inl e
           | Inr r \<Rightarrow> Inr (fst (list_reader r))))"

text \<open>The text that \<^verbatim>\<open>writerow\<close> appends for one row.\<close>

definition line :: "char \<Rightarrow> char \<Rightarrow> string list \<Rightarrow> string" where
  "line d q row = join d (map (escape_field d q) row) @ [LF]"

text \<open>
  \<^verbatim>\<open>list(CustomCsvReader(io.StringIO(s), d, q))\<close>: the rows a fresh reader yields for the
  text \<open>s\<close>.
\<close>

definition read_text :: "char \<Rightarrow> char \<Rightarrow> string \<Rightarrow> exn + string list list" where
  "read_text d q s =
     (case CustomCsvReader_init s d q of
        Inl e \<Rightarrow> Inl e
      | Inr r \<Rightarrow> Inr (fst (list_reader r)))"

section \<open>The escaping policy in the words of the specification\<close>

text \<open>Every literal quote character is replaced by two consecutive quote characters.\<close>

fun doubled :: "char \<Rightarrow> string \<Rightarrow> string" where
  "doubled q [] = []"
| "doubled q (c # cs) = (if c = q then q # q # doubled q cs else c # doubled q cs)"

text \<open>
  Fields joined with a single delimiter character: every field after the first is
  preceded by exactly one delimiter.
\<close>

fun delimited :: "char \<Rightarrow> string list \<Rightarrow> string" where
  "delimited d [] = []"
| "delimited d (x # xs) = x @ concat (map (\<lambda>y. d # y) xs)"

section \<open>An invariant of the reader\<close>

text \<open>Once end-of-stream is set, nothing is left unread.\<close>

definition drained :: "reader \<Rightarrow> bool" where
  "drained r = (eof r \<longrightarrow> file_obj r = [])"

section \<open>Facts about the row loop\<close>

lemma read_loop_row_nonempty:
  "read_loop d q iq fc row s = (Some r, e, rest) \<Longrightarrow> r \<noteq> []"
proof (induction d q iq fc row s rule: read_loop.induct)
  case (1 d q in_quotes field_chars row)
  then show ?case by (auto split: if_splits)
next
  case (2 d q in_quotes field_chars row ch rest0)
  show ?case
  proof (cases rest0)
    case Nil
    with 2 show ?thesis by (auto split: if_splits)
  next
    case (Cons n r')
    with 2 show ?thesis by (auto split: if_splits)
  qed
qed

lemma read_loop_eof_exhausted:
  "read_loop d q iq fc row s = (res, True, rest) \<Longrightarrow> rest = []"
proof (induction d q iq fc row s rule: read_loop.induct)
  case (1 d q in_quotes field_chars row)
  then show ?case by (auto split: if_splits)
next
  case (2 d q in_quotes field_chars row ch rest0)
  show ?case
  proof (cases rest0)
    case Nil
    with 2 show ?thesis by (auto split: if_splits)
  next
    case (Cons n r')
    with 2 show ?thesis by (auto split: if_splits)
  qed
qed

lemma read_loop_None_eof:
  "read_loop d q iq fc row s = (None, e, rest) \<Longrightarrow> e"
proof (induction d q iq fc row s rule: read_loop.induct)
  case (1 d q in_quotes field_chars row)
  then show ?case by (auto split: if_splits)
next
  case (2 d q in_quotes field_chars row ch rest0)
  show ?case
  proof (cases rest0)
    case Nil
    with 2 show ?thesis by (auto split: if_splits)
  next
    case (Cons n r')
    with 2 show ?thesis by (auto split: if_splits)
  qed
qed

lemma read_loop_None_result:
  assumes "read_loop d q iq fc row s = (None, e, rest)"
  shows "e \<and> rest = []"
proof -
  from assms have e by (rule read_loop_None_eof)
  with assms read_loop_eof_exhausted [of d q iq fc row s None rest] show ?thesis by simp
qed



lemma read_loop_le:
  "read_loop d q iq fc row s = (res, e, rest) \<Longrightarrow> length rest \<le> length s"
proof (induction d q iq fc row s rule: read_loop.induct)
  case (1 d q in_quotes field_chars row)
  then show ?case by (auto split: if_splits)
next
  case (2 d q in_quotes field_chars row ch rest0)
  show ?case
  proof (cases rest0)
    case Nil
    with 2 show ?thesis by (auto split: if_splits)
  next
    case (Cons n r')
    with 2 show ?thesis by (auto split: if_splits)
  qed
qed

lemma read_loop_fresh_shorter:
  "read_loop d q False [] [] s = (Some r, e, rest) \<Longrightarrow> length rest < length s"
proof (cases s)
  case Nil
  assume "read_loop d q False [] [] s = (Some r, e, rest)"
  with Nil show ?thesis by simp
next
  case (Cons ch rest0)
  assume a: "read_loop d q False [] [] s = (Some r, e, rest)"
  with Cons show ?thesis
    by (auto split: if_splits list.splits dest: read_loop_le)
qed

lemma reader_next_stop:
  "reader_next r = (Inl StopIteration, r') \<Longrightarrow> eof r' \<and> (drained r \<longrightarrow> file_obj r' = [])"
  by (auto simp: reader_next_def read_next_row_def drained_def
      split: if_splits prod.splits option.splits
      dest: read_loop_None_result)

lemma reader_next_row:
  "reader_next r = (Inr row, r') \<Longrightarrow>
     \<not> eof r \<and> drained r' \<and> row \<noteq> [] \<and> length (file_obj r') < length (file_obj r)"
  by (auto simp: reader_next_def read_next_row_def drained_def
      split: if_splits prod.splits option.splits
      dest: read_loop_row_nonempty read_loop_eof_exhausted read_loop_fresh_shorter)

lemma list_reader_final:
  "drained r \<Longrightarrow> list_reader r = (rows, r') \<Longrightarrow>
     eof r' \<and> file_obj r' = [] \<and> [] \<notin> set rows
     \<and> length rows \<le> (if eof r then 0 else length (file_obj r))"
proof (induction r arbitrary: rows r' rule: list_reader.induct)
  case (1 r)
  obtain res r1 where n: "reader_next r = (res, r1)" by (cases "reader_next r") auto
  show ?case
  proof (cases res)
    case (Inl x)
    then have s: "reader_next r = (Inl StopIteration, r1)" using n by (cases x) simp
    with "1.prems" have "rows = []" "r' = r1"
      by (simp_all add: list_reader.simps [of r])
    with reader_next_stop [OF s] "1.prems"(1) show ?thesis by simp
  next
    case (Inr row)
    with n have s: "reader_next r = (Inr row, r1)" by simp
    obtain rows1 r2 where l: "list_reader r1 = (rows1, r2)" by (cases "list_reader r1") auto
    from reader_next_row [OF s] have d: "drained r1" and ne: "row \<noteq> []"
      and lt: "length (file_obj r1) < length (file_obj r)" and neof: "\<not> eof r" by simp_all
    have IH: "eof r2 \<and> file_obj r2 = [] \<and> [] \<notin> set rows1
       \<and> length rows1 \<le> (if eof r1 then 0 else length (file_obj r1))"
      using "1.IH" [OF s [symmetric] refl d l] .
    from "1.prems"(2) s l have "rows = row # rows1" "r' = r2"
      by (simp_all add: list_reader.simps [of r])
    with IH ne lt neof show ?thesis by (auto split: if_splits)
  qed
qed

section \<open>Reading back what the writer wrote\<close>

lemma read_loop_plain:
  "\<forall>c\<in>set f. c \<noteq> d \<and> c \<noteq> q \<and> c \<noteq> LF \<and> c \<noteq> CR \<Longrightarrow>
   read_loop d q False fc row (f @ rest) = read_loop d q False (fc @ f) row rest"
  by (induction f arbitrary: fc) simp_all

lemma read_loop_quoted:
  "read_loop d q True fc row (replace q [q, q] f @ rest) = read_loop d q True (fc @ f) row rest"
  by (induction f arbitrary: fc) (simp_all add: replace_def)

lemma read_loop_quoted_field:
  assumes "x \<noteq> q"
  shows "read_loop d q False [] row (q # replace q [q, q] f @ q # x # rest) =
     (if x = d then read_loop d q False [] (row @ [f]) rest
      else if x = LF \<or> x = CR then (Some (row @ [f]), False, rest)
      else read_loop d q False (f @ [x]) row rest)"
proof -
  have "read_loop d q False [] row (q # replace q [q, q] f @ q # x # rest) =
        read_loop d q True [] row (replace q [q, q] f @ q # x # rest)"
    by simp
  also have "\<dots> = read_loop d q True f row (q # x # rest)"
    using read_loop_quoted [of d q "[]" row f "q # x # rest"] by simp
  finally show ?thesis using assms by simp
qed

lemma read_loop_escaped_delim:
  assumes "valid_config d q"
  shows "read_loop d q False [] row (escape_field d q f @ d # rest) =
         read_loop d q False [] (row @ [f]) rest"
proof (cases "d \<in> set f \<or> q \<in> set f \<or> LF \<in> set f \<or> CR \<in> set f")
  case True
  then have "escape_field d q f = q # replace q [q, q] f @ [q]"
    by (simp add: escape_field_def numeral_2_eq_2)
  then show ?thesis
    using assms read_loop_quoted_field [where x = d and q = q and d = d and row = row and f = f and rest = rest]
    by (auto simp: valid_config_def)
next
  case False
  then have e: "escape_field d q f = f" and p: "\<forall>c\<in>set f. c \<noteq> d \<and> c \<noteq> q \<and> c \<noteq> LF \<and> c \<noteq> CR"
    by (auto simp: escape_field_def)
  show ?thesis
    using assms read_loop_plain [OF p, of "[]" row "d # rest"] e
    by (simp add: valid_config_def)
qed

lemma read_loop_escaped_newline:
  assumes "valid_config d q"
  shows "read_loop d q False [] row (escape_field d q f @ LF # rest) =
         (Some (row @ [f]), False, rest)"
proof (cases "d \<in> set f \<or> q \<in> set f \<or> LF \<in> set f \<or> CR \<in> set f")
  case True
  then have "escape_field d q f = q # replace q [q, q] f @ [q]"
    by (simp add: escape_field_def numeral_2_eq_2)
  then show ?thesis
    using assms read_loop_quoted_field [where x = LF and q = q and d = d and row = row and f = f and rest = rest]
    by (auto simp: valid_config_def)
next
  case False
  then have e: "escape_field d q f = f" and p: "\<forall>c\<in>set f. c \<noteq> d \<and> c \<noteq> q \<and> c \<noteq> LF \<and> c \<noteq> CR"
    by (auto simp: escape_field_def)
  from assms have "LF \<noteq> q" and "LF \<noteq> d" by (auto simp: valid_config_def)
  then show ?thesis
    using read_loop_plain [OF p, of "[]" row "LF # rest"] e by simp
qed

lemma read_loop_line:
  assumes "valid_config d q" and "flds \<noteq> []"
  shows "read_loop d q False [] row (join d (map (escape_field d q) flds) @ LF # rest) =
         (Some (row @ flds), False, rest)"
  using assms(2)
proof (induction flds arbitrary: row rule: list_nonempty_induct)
  case (single f)
  show ?case using read_loop_escaped_newline [OF assms(1)] by simp
next
  case (cons f fs)
  then obtain g gs where fs: "fs = g # gs" by (cases fs) auto
  have "read_loop d q False [] row (join d (map (escape_field d q) (f # fs)) @ LF # rest) =
        read_loop d q False [] row
          (escape_field d q f @ d # (join d (map (escape_field d q) fs) @ LF # rest))"
    by (simp add: fs)
  also have "\<dots> = read_loop d q False [] (row @ [f]) (join d (map (escape_field d q) fs) @ LF # rest)"
    by (rule read_loop_escaped_delim [OF assms(1)])
  also have "\<dots> = (Some ((row @ [f]) @ fs), False, rest)"
    by (rule cons.IH)
  finally show ?case by simp
qed

lemma writerows_sink:
  "sink (writerows w rows) = sink w @ concat (map (line (w_delimiter w) (w_quotechar w)) rows)"
  by (induction rows arbitrary: w) (simp_all add: writerow_def line_def Let_def)

lemma list_reader_lines:
  assumes "valid_config d q" and "\<forall>row\<in>set rows. row \<noteq> []"
  shows "list_reader \<lparr>file_obj = concat (map (line d q) rows), delimiter = d, quotechar = q, eof = False\<rparr>
         = (rows, \<lparr>file_obj = [], delimiter = d, quotechar = q, eof = True\<rparr>)"
  using assms(2)
proof (induction rows)
  case Nil
  show ?case
    by (subst list_reader.simps) (simp add: reader_next_def read_next_row_def)
next
  case (Cons row rows)
  then have ne: "row \<noteq> []" and IH: "list_reader \<lparr>file_obj = concat (map (line d q) rows), delimiter = d, quotechar = q, eof = False\<rparr>
         = (rows, \<lparr>file_obj = [], delimiter = d, quotechar = q, eof = True\<rparr>)"
    by simp_all
  have "read_loop d q False [] [] (concat (map (line d q) (row # rows))) =
        (Some row, False, concat (map (line d q) rows))"
    using read_loop_line [OF assms(1) ne, of "[]" "concat (map (line d q) rows)"]
    by (simp add: line_def)
  then have "reader_next \<lparr>file_obj = concat (map (line d q) (row # rows)), delimiter = d, quotechar = q, eof = False\<rparr>
      = (Inr row, \<lparr>file_obj = concat (map (line d q) rows), delimiter = d, quotechar = q, eof = False\<rparr>)"
    by (simp add: reader_next_def read_next_row_def)
  then show ?case
    by (subst list_reader.simps) (simp add: IH)
qed

section \<open>The writer against the specification\<close>

lemma replace_doubled: "replace q [q, q] f = doubled q f"
  by (induction f) (simp_all add: replace_def)

lemma join_delimited: "join d xs = delimited d xs"
  by (induction d xs rule: join.induct) simp_all

lemma doubled_longer: "length f \<le> length (doubled q f)"
  by (induction f) simp_all

section \<open>Properties of the codec\<close>

text \<open>
  Claim C1, as amended. Round trip: for every valid configuration (delimiter, quote
  character and the newline characters pairwise different) and every row sequence whose
  rows each hold at least one field, writing the rows with \<^verbatim>\<open>writerows\<close> and reading the
  text back with a reader of the same configuration yields exactly the rows written,
  whatever characters the fields contain (delimiters, quote characters, newlines).
\<close>

theorem round_trip_nonempty_rows:
  assumes "valid_config d q" and "\<forall>row\<in>set rows. row \<noteq> []"
  shows "round_trip d q rows = Inr rows"
  using list_reader_lines [OF assms]
  by (simp add: round_trip_def CustomCsvWriter_init_def CustomCsvReader_init_def writerows_sink)

theorem round_trip_nonempty_rows_witness:
  "valid_config (CHR '','') DQ
   \<and> [] \<notin> set [[''a,b'', ''x'' @ [DQ] @ ''y''], [''line1'' @ [LF] @ ''line2'', '''']]
   \<and> round_trip (CHR '','') DQ [[''a,b'', ''x'' @ [DQ] @ ''y''], [''line1'' @ [LF] @ ''line2'', '''']]
       = Inr [[''a,b'', ''x'' @ [DQ] @ ''y''], [''line1'' @ [LF] @ ''line2'', '''']]"
  using round_trip_nonempty_rows [of "CHR '',''" DQ "[[''a,b'', ''x'' @ [DQ] @ ''y''], [''line1'' @ [LF] @ ''line2'', '''']]"]
  by (simp add: valid_config_def)

text \<open>
  An empty row is written as an empty line, and an empty line is read back as a row with
  one empty field: the round trip of the single row \<open>[]\<close> gives \<open>[['''']]\<close>.
\<close>

theorem round_trip_empty_row_counterexample:
  "round_trip (CHR '','') DQ [[]] = Inr [['''']] \<and> round_trip (CHR '','') DQ [[]] \<noteq> Inr [[]]"
  by (simp add: round_trip_def CustomCsvWriter_init_def CustomCsvReader_init_def writerow_def
      list_reader.simps reader_next_def read_next_row_def)

text \<open>
  Claim C2. Writer escaping policy: \<^verbatim>\<open>writerow\<close> quotes a field if and only if the field
  contains the delimiter, the quote character, a line feed or a carriage return; a quoted
  field is the field between two quote characters with every quote character inside
  doubled; any other field is emitted as it is; the fields are joined by single delimiter
  characters and the row ends with a single line feed. The writer's configuration is left
  as it was.
\<close>

theorem writerow_escaping_policy:
  "escape_field d q f =
     (if d \<in> set f \<or> q \<in> set f \<or> LF \<in> set f \<or> CR \<in> set f
      then [q] @ doubled q f @ [q] else f)
   \<and> (escape_field d q f \<noteq> f) = (d \<in> set f \<or> q \<in> set f \<or> LF \<in> set f \<or> CR \<in> set f)
   \<and> sink (writerow w row) =
       sink w @ delimited (w_delimiter w) (map (escape_field (w_delimiter w) (w_quotechar w)) row)
         @ [LF]
   \<and> w_delimiter (writerow w row) = w_delimiter w
   \<and> w_quotechar (writerow w row) = w_quotechar w"
proof -
  have e: "escape_field d q f =
     (if d \<in> set f \<or> q \<in> set f \<or> LF \<in> set f \<or> CR \<in> set f
      then [q] @ doubled q f @ [q] else f)"
    by (simp add: escape_field_def numeral_2_eq_2 replace_doubled)
  have "length ([q] @ doubled q f @ [q]) \<noteq> length f"
    using doubled_longer [of f q] by simp
  then have "[q] @ doubled q f @ [q] \<noteq> f" by metis
  with e have n: "(escape_field d q f \<noteq> f) = (d \<in> set f \<or> q \<in> set f \<or> LF \<in> set f \<or> CR \<in> set f)"
    by auto
  have s: "sink (writerow w row) =
       sink w @ delimited (w_delimiter w) (map (escape_field (w_delimiter w) (w_quotechar w)) row)
         @ [LF]"
    by (simp add: writerow_def Let_def join_delimited)
  have c: "w_delimiter (writerow w row) = w_delimiter w" "w_quotechar (writerow w row) = w_quotechar w"
    by (simp_all add: writerow_def Let_def)
  from e n s c show ?thesis by blast
qed

text \<open>
  Claim C3. Totality of parsing: for every finite source text and every configuration,
  constructing a reader and iterating it to the end returns a row sequence; the only
  signal is the \<^verbatim>\<open>StopIteration\<close> that ends the iteration. At the end the whole source has
  been consumed and end-of-stream is set; there are at most as many rows as characters,
  and every row has at least one field.
\<close>

theorem reader_total:
  "\<exists>r rows r'. CustomCsvReader_init s d q = Inr r \<and> list_reader r = (rows, r')
     \<and> read_text d q s = Inr rows
     \<and> eof r' \<and> file_obj r' = [] \<and> [] \<notin> set rows \<and> length rows \<le> length s
     \<and> reader_next r' = (Inl StopIteration, r')"
proof -
  define r where "r = \<lparr>file_obj = s, delimiter = d, quotechar = q, eof = False\<rparr>"
  obtain rows r' where l: "list_reader r = (rows, r')" by (cases "list_reader r") auto
  have "drained r" by (simp add: drained_def r_def)
  from list_reader_final [OF this l]
  have f: "eof r'" "file_obj r' = []" "[] \<notin> set rows" "length rows \<le> length s"
    by (simp_all add: r_def)
  have i: "CustomCsvReader_init s d q = Inr r" by (simp add: CustomCsvReader_init_def r_def)
  have t: "read_text d q s = Inr rows" by (simp add: read_text_def i l)
  have n: "reader_next r' = (Inl StopIteration, r')"
    using f(1) by (simp add: reader_next_def read_next_row_def)
  from i l t f n show ?thesis by blast
qed

text \<open>
  Claim C4. Quote only at field start: a quote character read outside quotes opens a
  quoted section only when the field buffer is empty, and is appended to the buffer as a
  literal character otherwise. Reading \<^verbatim>\<open>ab"c,d\<close> yields the one row with the fields
  \<^verbatim>\<open>ab"c\<close> and \<^verbatim>\<open>d\<close>.
\<close>

theorem quote_only_at_field_start:
  "read_loop d q False fc row (q # rest) =
     (if fc = [] then read_loop d q True [] row rest
      else read_loop d q False (fc @ [q]) row rest)
   \<and> read_text (CHR '','') DQ (''ab'' @ [DQ] @ ''c,d'') = Inr [[''ab'' @ [DQ] @ ''c'', ''d'']]"
  by (simp add: read_text_def CustomCsvReader_init_def list_reader.simps reader_next_def
      read_next_row_def)

text \<open>
  Claim C5, evaluated on the code. The carriage return of a CRLF pair ends the row and the
  line feed after it ends a second, empty line: the text \<^verbatim>\<open>a,b\r\nc,d\r\n\<close> is read as four
  rows, the two of the text \<^verbatim>\<open>a,b\nc,d\n\<close> each followed by a row with one empty field.
\<close>

theorem crlf_yields_extra_rows:
  "read_text (CHR '','') DQ (''a,b'' @ [CR, LF] @ ''c,d'' @ [CR, LF])
     = Inr [[''a'', ''b''], [''''], [''c'', ''d''], ['''']]
   \<and> read_text (CHR '','') DQ (''a,b'' @ [LF] @ ''c,d'' @ [LF])
     = Inr [[''a'', ''b''], [''c'', ''d'']]"
  by (simp add: read_text_def CustomCsvReader_init_def list_reader.simps reader_next_def
      read_next_row_def)



text \<open>
  Claim C7. Doubled-quote decode: inside a quoted field two consecutive quote characters
  give one literal quote character in the field, so a text with every quote character
  doubled is decoded to the original text; reading \<^verbatim>\<open>a,"he said ""hi""",c\<close> yields the one
  row with the fields \<^verbatim>\<open>a\<close>, \<^verbatim>\<open>he said "hi"\<close> and \<^verbatim>\<open>c\<close>.
\<close>

theorem doubled_quote_decode:
  "read_loop d q True fc row (q # q # rest) = read_loop d q True (fc @ [q]) row rest
   \<and> read_loop d q True fc row (doubled q f @ rest) = read_loop d q True (fc @ f) row rest
   \<and> read_text (CHR '','') DQ (''a,'' @ [DQ] @ ''he said '' @ [DQ, DQ] @ ''hi'' @ [DQ, DQ, DQ] @ '',c'')
       = Inr [[''a'', ''he said '' @ [DQ] @ ''hi'' @ [DQ], ''c'']]"
proof -
  have "read_loop d q True fc row (doubled q f @ rest) = read_loop d q True (fc @ f) row rest"
    using read_loop_quoted [of d q fc row f rest] by (simp add: replace_doubled)
  then show ?thesis
    by (simp add: read_text_def CustomCsvReader_init_def list_reader.simps reader_next_def
      read_next_row_def)
qed

text \<open>
  Claim C8, as amended. Construction performs no validation: for every delimiter and
  quote character, valid configuration or not, constructing a reader or a writer succeeds
  and stores the source or sink and the two characters as given.
\<close>

theorem construction_never_fails:
  "(\<exists>r. CustomCsvReader_init f d q = Inr r \<and> file_obj r = f \<and> delimiter r = d
        \<and> quotechar r = q \<and> \<not> eof r)
   \<and> (\<exists>w. CustomCsvWriter_init f d q = Inr w \<and> sink w = f \<and> w_delimiter w = d
        \<and> w_quotechar w = q)"
  by (simp add: CustomCsvReader_init_def CustomCsvWriter_init_def)

text \<open>
  With the delimiter equal to the quote character both constructors succeed, and the row
  with the fields \<^verbatim>\<open>a\<close> and \<^verbatim>\<open>b\<close> is read back as the one field \<^verbatim>\<open>a,b\<close>.
\<close>

theorem construction_invalid_config_counterexample:
  "\<not> valid_config (CHR '','') (CHR '','')
   \<and> \<not> isl (CustomCsvReader_init ''a,b'' (CHR '','') (CHR '',''))
   \<and> \<not> isl (CustomCsvWriter_init [] (CHR '','') (CHR '',''))
   \<and> round_trip (CHR '','') (CHR '','') [[''a'', ''b'']] = Inr [[''a,b'']]"
  by (simp add: valid_config_def round_trip_def CustomCsvWriter_init_def CustomCsvReader_init_def
      writerow_def escape_field_def list_reader.simps reader_next_def read_next_row_def)

text \<open>
  Claim C9, as amended. When the source is exhausted while the reader is outside quotes
  and both the field buffer and the row are empty, the call sets end-of-stream and returns
  no row. When it is exhausted inside quotes, the call returns the row with the buffered
  field and sets end-of-stream: a source that is a single opening quote character yields
  the row with one empty field.
\<close>

theorem end_of_stream_nothing_accumulated:
  "read_loop d q False [] [] [] = (None, True, [])
   \<and> reader_next \<lparr>file_obj = [], delimiter = d, quotechar = q, eof = False\<rparr>
       = (Inl StopIteration, \<lparr>file_obj = [], delimiter = d, quotechar = q, eof = True\<rparr>)
   \<and> read_loop d q True fc row [] = (Some (row @ [fc]), True, [])
   \<and> reader_next \<lparr>file_obj = [q], delimiter = d, quotechar = q, eof = False\<rparr>
       = (Inr [''''], \<lparr>file_obj = [], delimiter = d, quotechar = q, eof = True\<rparr>)"
  by (simp add: reader_next_def read_next_row_def)

text \<open>
  With the default configuration, the source that is a single quote character yields a
  row, not the end-of-stream signal.
\<close>

theorem opening_quote_only_counterexample:
  "read_loop (CHR '','') DQ True [] [] [] = (Some [''''], True, [])
   \<and> reader_next \<lparr>file_obj = [DQ], delimiter = CHR '','', quotechar = DQ, eof = False\<rparr>
       = (Inr [''''], \<lparr>file_obj = [], delimiter = CHR '','', quotechar = DQ, eof = True\<rparr>)
   \<and> read_text (CHR '','') DQ [DQ] = Inr [['''']]"
  by (simp add: read_text_def CustomCsvReader_init_def list_reader.simps reader_next_def
      read_next_row_def)

text \<open>
  Claim C10. End-of-stream is sticky: once a call of \<^verbatim>\<open>__next__\<close> has raised
  \<^verbatim>\<open>StopIteration\<close>, any number of further calls leave the reader as it is (so nothing
  more is read from the source) and the call after them raises \<^verbatim>\<open>StopIteration\<close> again.
\<close>

theorem end_of_stream_sticky:
  assumes "reader_next r = (Inl StopIteration, r')"
  shows "((\<lambda>x. snd (reader_next x)) ^^ n) r' = r'
         \<and> reader_next (((\<lambda>x. snd (reader_next x)) ^^ n) r') = (Inl StopIteration, r')"
proof -
  from reader_next_stop [OF assms] have e: "eof r'" by simp
  then have s: "reader_next r' = (Inl StopIteration, r')"
    by (simp add: reader_next_def read_next_row_def)
  then have "((\<lambda>x. snd (reader_next x)) ^^ n) r' = r'"
    by (induction n) simp_all
  with s show ?thesis by simp
qed

text \<open>
  A reader on the empty source: the first call signals end-of-stream, and so does the
  call after three more.
\<close>

theorem end_of_stream_sticky_witness:
  "reader_next \<lparr>file_obj = [], delimiter = CHR '','', quotechar = DQ, eof = False\<rparr>
     = (Inl StopIteration, \<lparr>file_obj = [], delimiter = CHR '','', quotechar = DQ, eof = True\<rparr>)
   \<and> ((\<lambda>x. snd (reader_next x)) ^^ 3)
        \<lparr>file_obj = [], delimiter = CHR '','', quotechar = DQ, eof = True\<rparr>
       = \<lparr>file_obj = [], delimiter = CHR '','', quotechar = DQ, eof = True\<rparr>
   \<and> reader_next (((\<lambda>x. snd (reader_next x)) ^^ 3)
        \<lparr>file_obj = [], delimiter = CHR '','', quotechar = DQ, eof = True\<rparr>)
       = (Inl StopIteration, \<lparr>file_obj = [], delimiter = CHR '','', quotechar = DQ, eof = True\<rparr>)"
proof -
  have n: "reader_next \<lparr>file_obj = [], delimiter = CHR '','', quotechar = DQ, eof = False\<rparr>
     = (Inl StopIteration, \<lparr>file_obj = [], delimiter = CHR '','', quotechar = DQ, eof = True\<rparr>)"
    by (simp add: reader_next_def read_next_row_def)
  from n end_of_stream_sticky [OF n, of 3] show ?thesis by blast
qed

end
